theory Spec2Isabelle
  imports Main
begin

section \<open>Block geometry (solver.py, classes Move, Pos and Block)\<close>

datatype Move = UP | RIGHT | DOWN | LEFT

text \<open>A frozen dataclass is an immutable value compared field by field; Python's
  integers are unbounded.\<close>

datatype Pos = Pos (row: int) (col: int)

definition Pos_drow :: "Pos \<Rightarrow> int \<Rightarrow> Pos" where
  "Pos_drow p d = Pos (row p + d) (col p)"

definition Pos_dcol :: "Pos \<Rightarrow> int \<Rightarrow> Pos" where
  "Pos_dcol p d = Pos (row p) (col p + d)"

datatype Block = Block (b1: Pos) (b2: Pos)

datatype error = AssertionError

text \<open>The assertion of \<open>Block.__post_init__\<close>, with assertions enabled; a failed
  assertion is the value \<open>Inl AssertionError\<close>.\<close>

definition post_init :: "Block \<Rightarrow> error + Block" where
  "post_init b =
     (if row (b1 b) \<le> row (b2 b) \<and> col (b1 b) \<le> col (b2 b) then Inr b
      else Inl AssertionError)"

text \<open>The call \<open>Block(p, q)\<close>: the fields are stored, then \<open>__post_init__\<close> runs.\<close>

definition new_Block :: "Pos \<Rightarrow> Pos \<Rightarrow> error + Block" where
  "new_Block p q = post_init (Block p q)"

definition Block_drow :: "Block \<Rightarrow> int \<Rightarrow> int \<Rightarrow> error + Block" where
  "Block_drow b d1 d2 = new_Block (Pos_drow (b1 b) d1) (Pos_drow (b2 b) d2)"

definition Block_dcol :: "Block \<Rightarrow> int \<Rightarrow> int \<Rightarrow> error + Block" where
  "Block_dcol b d1 d2 = new_Block (Pos_dcol (b1 b) d1) (Pos_dcol (b2 b) d2)"

definition is_standing :: "Block \<Rightarrow> bool" where
  "is_standing b = (b1 b = b2 b)"

definition left :: "Block \<Rightarrow> error + Block" where
  "left b =
     (if is_standing b then Block_dcol b (- 2) (- 1)
      else if row (b1 b) = row (b2 b) then Block_dcol b (- 1) (- 2)
      else Block_dcol b (- 1) (- 1))"

definition right :: "Block \<Rightarrow> error + Block" where
  "right b =
     (if is_standing b then Block_dcol b 1 2
      else if row (b1 b) = row (b2 b) then Block_dcol b 2 1
      else Block_dcol b 1 1)"

definition up :: "Block \<Rightarrow> error + Block" where
  "up b =
     (if is_standing b then Block_drow b (- 2) (- 1)
      else if row (b1 b) = row (b2 b) then Block_drow b (- 1) (- 1)
      else Block_drow b (- 1) (- 2))"

definition down :: "Block \<Rightarrow> error + Block" where
  "down b =
     (if is_standing b then Block_drow b 1 2
      else if row (b1 b) = row (b2 b) then Block_drow b 1 1
      else Block_drow b 2 1)"

text \<open>The tuple of \<open>Block.neighbors\<close> is built left to right, so the first tilt whose
  constructor assertion fails decides the error.\<close>

definition neighbors :: "Block \<Rightarrow> error + (Block \<times> Move) list" where
  "neighbors b =
     (case left b of Inl e \<Rightarrow> Inl e | Inr l \<Rightarrow>
      case right b of Inl e \<Rightarrow> Inl e | Inr r \<Rightarrow>
      case up b of Inl e \<Rightarrow> Inl e | Inr u \<Rightarrow>
      case down b of Inl e \<Rightarrow> Inl e | Inr d \<Rightarrow>
        Inr [(l, LEFT), (r, RIGHT), (u, UP), (d, DOWN)])"

text \<open>The tilt named by a move tag, as \<open>neighbors\<close> pairs them.\<close>

definition tilt :: "Move \<Rightarrow> Block \<Rightarrow> error + Block" where
  "tilt m b = (case m of UP \<Rightarrow> up b | RIGHT \<Rightarrow> right b | DOWN \<Rightarrow> down b | LEFT \<Rightarrow> left b)"

section \<open>The search engine (class Solver)\<close>

text \<open>The attributes of a Solver object. The terrain callback is taken to be a pure,
  total predicate on cells. The set compares blocks by value, as the hash and equality
  of a frozen dataclass do; \<open>queue.Queue()\<close> is unbounded, so \<open>put\<close> never blocks, and
  \<open>get\<close> is only called on a non-empty queue.\<close>

record Solver =
  explored :: "Block set"
  fifo :: "(Block \<times> Move list) list"
  goal :: Pos
  start :: Pos
  terrain :: "Pos \<Rightarrow> bool"

text \<open>\<open>Solver.__init__\<close>: the explored set and the queue are made here, once per
  instance.\<close>

definition Solver_init :: "Pos \<Rightarrow> Pos \<Rightarrow> (Pos \<Rightarrow> bool) \<Rightarrow> Solver" where
  "Solver_init s g t = \<lparr>explored = {}, fifo = [], goal = g, start = s, terrain = t\<rparr>"

text \<open>\<open>Solver.done\<close> (the name \<open>done\<close> is reserved in Isar).\<close>

definition done_block :: "Solver \<Rightarrow> Block \<Rightarrow> bool" where
  "done_block s b = (is_standing b \<and> b1 b = goal s)"

definition is_legal :: "Solver \<Rightarrow> Pos \<Rightarrow> Pos \<Rightarrow> bool" where
  "is_legal s p q = (terrain s p \<and> terrain s q)"

text \<open>The \<open>for b, m in neighbors\<close> loop of \<open>solve\<close>; \<open>history\<close> is the dequeued
  record's move list.\<close>

fun for_neighbors :: "Solver \<Rightarrow> Move list \<Rightarrow> (Block \<times> Move) list \<Rightarrow> Solver" where
  "for_neighbors s history [] = s"
| "for_neighbors s history ((b, m) # ns) =
     (if b \<in> explored s then for_neighbors s history ns
      else if \<not> is_legal s (b1 b) (b2 b) then for_neighbors s history ns
      else for_neighbors (s\<lparr>fifo := fifo s @ [(b, history @ [m])]\<rparr>) history ns)"

text \<open>The \<open>while\<close> loop of \<open>solve\<close>. \<open>None\<close> is a loop that never returns; a returned
  value comes with the solver object as the call leaves it.\<close>

partial_function (option) solve_loop :: "Solver \<Rightarrow> ((error + Move list) \<times> Solver) option" where
  "solve_loop s =
     (case fifo s of
        [] \<Rightarrow> Some (Inr [], s)
      | bh # rest \<Rightarrow>
          (case bh of (block, history) \<Rightarrow>
             if done_block s block then Some (Inr history, s\<lparr>fifo := rest\<rparr>)
             else (case neighbors block of
                     Inl e \<Rightarrow> Some (Inl e, s\<lparr>fifo := rest\<rparr>)
                   | Inr ns \<Rightarrow>
                       solve_loop
                         (for_neighbors
                            (s\<lparr>fifo := rest, explored := insert block (explored s)\<rparr>)
                            history ns))))"

declare solve_loop.simps [code]

definition solve :: "Solver \<Rightarrow> ((error + Move list) \<times> Solver) option" where
  "solve s =
     (case new_Block (start s) (start s) of
        Inl e \<Rightarrow> Some (Inl e, s)
      | Inr b \<Rightarrow> solve_loop (s\<lparr>fifo := fifo s @ [(b, [])]\<rparr>))"


section \<open>Notions the properties are stated with\<close>

text \<open>Canonical order of two cells: by row, then by column.\<close>

definition lex_le :: "Pos \<Rightarrow> Pos \<Rightarrow> bool" where
  "lex_le p q = (row p < row q \<or> (row p = row q \<and> col p \<le> col q))"

text \<open>Two cells are adjacent when they share a row at column distance 1 or share a
  column at row distance 1.\<close>

definition adjacent :: "Pos \<Rightarrow> Pos \<Rightarrow> bool" where
  "adjacent p q =
     ((row p = row q \<and> \<bar>col p - col q\<bar> = 1) \<or> (col p = col q \<and> \<bar>row p - row q\<bar> = 1))"

text \<open>A well-formed configuration: the two cells are identical or adjacent, and in
  canonical order.\<close>

definition well_formed :: "Block \<Rightarrow> bool" where
  "well_formed b = ((b1 b = b2 b \<or> adjacent (b1 b) (b2 b)) \<and> lex_le (b1 b) (b2 b))"

text \<open>The terrain of the concrete scenario: rows 0 to 2, columns 0 to 3.\<close>

definition grid_terrain :: "Pos \<Rightarrow> bool" where
  "grid_terrain p = (0 \<le> row p \<and> row p \<le> 2 \<and> 0 \<le> col p \<and> col p \<le> 3)"

text \<open>Both cells of a configuration satisfy the terrain predicate (what
  \<open>Solver.is_legal\<close> computes on the two cells of a block).\<close>

definition on_terrain :: "(Pos \<Rightarrow> bool) \<Rightarrow> Block \<Rightarrow> bool" where
  "on_terrain t b = (t (b1 b) \<and> t (b2 b))"

text \<open>Applying a move sequence step by step from a configuration. The result is the
  configuration reached when every tilt returns and every configuration after a move
  lies on the terrain, and \<open>None\<close> otherwise. The starting configuration itself is not
  tested, as in \<open>solve\<close>.\<close>

fun legal_run :: "(Pos \<Rightarrow> bool) \<Rightarrow> Block \<Rightarrow> Move list \<Rightarrow> Block option" where
  "legal_run t b [] = Some b"
| "legal_run t b (m # ms) =
     (case tilt m b of
        Inl e \<Rightarrow> None
      | Inr b' \<Rightarrow> if on_terrain t b' then legal_run t b' ms else None)"

text \<open>The configurations after each move of a sequence, in order.\<close>

fun configurations :: "Block \<Rightarrow> Move list \<Rightarrow> error + Block list" where
  "configurations b [] = Inr []"
| "configurations b (m # ms) =
     (case tilt m b of
        Inl e \<Rightarrow> Inl e
      | Inr b' \<Rightarrow> (case configurations b' ms of Inl e \<Rightarrow> Inl e | Inr bs \<Rightarrow> Inr (b' # bs)))"

text \<open>The configurations reachable from \<open>b\<close> by legal tilts, \<open>b\<close> itself included: the
  vertices of the search graph.\<close>

definition reachable :: "(Pos \<Rightarrow> bool) \<Rightarrow> Block \<Rightarrow> Block set" where
  "reachable t b = {c. \<exists>ms. legal_run t b ms = Some c}"

text \<open>Some sequence of legal tilts leads from standing at \<open>s\<close> to standing at \<open>g\<close>.\<close>

definition solvable :: "(Pos \<Rightarrow> bool) \<Rightarrow> Pos \<Rightarrow> Pos \<Rightarrow> bool" where
  "solvable t s g = (\<exists>ms. legal_run t (Block s s) ms = Some (Block g g))"

text \<open>The graph distance: the least number of legal tilts from \<open>b\<close> to \<open>c\<close>.\<close>

definition graph_distance :: "(Pos \<Rightarrow> bool) \<Rightarrow> Block \<Rightarrow> Block \<Rightarrow> nat" where
  "graph_distance t b c = (LEAST n. \<exists>ms. length ms = n \<and> legal_run t b ms = Some c)"

section \<open>Notions of the correctness proof of the search\<close>

text \<open>The configurations a move sequence passes through, the first one included.\<close>

fun visited :: "Block \<Rightarrow> Move list \<Rightarrow> Block list" where
  "visited b [] = [b]"
| "visited b (m # ms) = b # (case tilt m b of Inl e \<Rightarrow> [] | Inr b' \<Rightarrow> visited b' ms)"

text \<open>The records one run of the \<open>for\<close> loop appends, given the explored set \<open>E\<close>, the
  dequeued history \<open>h\<close> and the neighbour list.\<close>

definition new_records ::
  "(Pos \<Rightarrow> bool) \<Rightarrow> Block set \<Rightarrow> Move list \<Rightarrow> (Block \<times> Move) list \<Rightarrow> (Block \<times> Move list) list" where
  "new_records t E h ns =
     map (\<lambda>(b, m). (b, h @ [m])) (filter (\<lambda>(b, m). b \<notin> E \<and> on_terrain t b) ns)"

text \<open>\<open>new\<close> is what expanding \<open>p\<close> with history \<open>h\<close> appends: at most four records, one
  for each tilt of \<open>p\<close> that lands on the terrain outside \<open>E\<close>.\<close>

definition expansion ::
  "(Pos \<Rightarrow> bool) \<Rightarrow> Block set \<Rightarrow> Block \<Rightarrow> Move list \<Rightarrow> (Block \<times> Move list) list \<Rightarrow> bool" where
  "expansion t E p h new \<longleftrightarrow>
     length new \<le> 4 \<and>
     (\<forall>c h'. (c, h') \<in> set new \<longleftrightarrow>
        (\<exists>m. h' = h @ [m] \<and> tilt m p = Inr c \<and> on_terrain t c \<and> c \<notin> E))"

text \<open>Every queued history is a legal path from the start to its configuration.\<close>

definition inv_paths :: "(Pos \<Rightarrow> bool) \<Rightarrow> Block \<Rightarrow> (Block \<times> Move list) list \<Rightarrow> bool" where
  "inv_paths t b0 Q \<longleftrightarrow> (\<forall>(c, h) \<in> set Q. legal_run t b0 h = Some c)"

text \<open>A queued path visits no configuration twice, and all it visits before its end is
  explored.\<close>

definition inv_distinct :: "Block \<Rightarrow> Block set \<Rightarrow> (Block \<times> Move list) list \<Rightarrow> bool" where
  "inv_distinct b0 E Q \<longleftrightarrow>
     (\<forall>(c, h) \<in> set Q. distinct (visited b0 h) \<and> set (butlast (visited b0 h)) \<subseteq> E)"

text \<open>The start is explored or queued, and so is every legal neighbour of an explored
  configuration.\<close>

definition inv_closed ::
  "(Pos \<Rightarrow> bool) \<Rightarrow> Block \<Rightarrow> Block set \<Rightarrow> (Block \<times> Move list) list \<Rightarrow> bool" where
  "inv_closed t b0 E Q \<longleftrightarrow>
     (b0 \<in> E \<or> b0 \<in> fst ` set Q) \<and>
     (\<forall>p \<in> E. \<forall>m c. tilt m p = Inr c \<and> on_terrain t c \<longrightarrow> c \<in> E \<or> c \<in> fst ` set Q)"

text \<open>The level of a record is the length of its history.\<close>

definition level :: "Block \<times> Move list \<Rightarrow> nat" where
  "level x = length (snd x)"

text \<open>The queue is ordered by level and spans at most two levels; whatever is reachable in
  fewer moves than the front level is explored, and whatever is reachable in exactly
  that many moves is explored or queued at the front level.\<close>

definition inv_levels ::
  "(Pos \<Rightarrow> bool) \<Rightarrow> Block \<Rightarrow> Block set \<Rightarrow> (Block \<times> Move list) list \<Rightarrow> bool" where
  "inv_levels t b0 E Q \<longleftrightarrow>
     sorted (map level Q) \<and>
     (\<forall>x \<in> set Q. level x \<le> Suc (level (hd Q))) \<and>
     (Q \<noteq> [] \<longrightarrow>
        (\<forall>h c. legal_run t b0 h = Some c \<and> length h < level (hd Q) \<longrightarrow> c \<in> E) \<and>
        (\<forall>h c. legal_run t b0 h = Some c \<and> length h = level (hd Q) \<longrightarrow>
            c \<in> E \<or> (\<exists>h'. (c, h') \<in> set Q \<and> length h' = length h)))"

text \<open>The invariant of the \<open>while\<close> loop; the goal configuration is never explored.\<close>

definition search_inv ::
  "(Pos \<Rightarrow> bool) \<Rightarrow> Block \<Rightarrow> Pos \<Rightarrow> Block set \<Rightarrow> (Block \<times> Move list) list \<Rightarrow> bool" where
  "search_inv t b0 g E Q \<longleftrightarrow>
     inv_paths t b0 Q \<and> inv_distinct b0 E Q \<and> inv_closed t b0 E Q \<and> inv_levels t b0 E Q \<and>
     Block g g \<notin> E"

text \<open>The termination measure: a record of level \<open>k\<close> weighs \<open>5 ^ (N - k)\<close>, more than the
  four records of level \<open>k + 1\<close> that may replace it.\<close>

definition weight :: "nat \<Rightarrow> (Block \<times> Move list) list \<Rightarrow> nat" where
  "weight N Q = sum_list (map (\<lambda>x. 5 ^ (N - level x)) Q)"

section \<open>Block geometry: properties\<close>

lemmas geometry_defs =
  tilt_def left_def right_def up_def down_def Block_drow_def Block_dcol_def
  Pos_drow_def Pos_dcol_def new_Block_def post_init_def is_standing_def

lemma well_formed_shapes:
  assumes "well_formed b"
  obtains (standing) r c where "b = Block (Pos r c) (Pos r c)"
    | (horizontal) r c where "b = Block (Pos r c) (Pos r (c + 1))"
    | (vertical) r c where "b = Block (Pos r c) (Pos (r + 1) c)"
proof (cases b)
  case (Block p q)
  obtain r c where p: "p = Pos r c" by (cases p)
  obtain r' c' where q: "q = Pos r' c'" by (cases q)
  from assms Block p q
  have "(r' = r \<and> c' = c) \<or> (r' = r \<and> c' = c + 1) \<or> (r' = r + 1 \<and> c' = c)"
    by (auto simp: well_formed_def adjacent_def lex_le_def)
  with Block p q standing horizontal vertical show thesis by blast
qed

text \<open>C2: on a well-formed configuration each tilt follows the three-way case split:
  a standing block at \<open>p\<close> becomes the lying block on the cells one and two steps from
  \<open>p\<close> in the tilt direction; a lying block tilted along its long axis becomes standing
  one cell beyond the end in the direction of travel; a lying block tilted across its
  long axis stays lying, both cells shifted by one.\<close>

theorem tilt_case_split:
  "well_formed b \<Longrightarrow>
     (is_standing b \<longrightarrow>
        tilt LEFT b = Inr (Block (Pos_dcol (b1 b) (- 2)) (Pos_dcol (b1 b) (- 1))) \<and>
        tilt RIGHT b = Inr (Block (Pos_dcol (b1 b) 1) (Pos_dcol (b1 b) 2)) \<and>
        tilt UP b = Inr (Block (Pos_drow (b1 b) (- 2)) (Pos_drow (b1 b) (- 1))) \<and>
        tilt DOWN b = Inr (Block (Pos_drow (b1 b) 1) (Pos_drow (b1 b) 2))) \<and>
     (\<not> is_standing b \<and> row (b1 b) = row (b2 b) \<longrightarrow>
        tilt LEFT b = Inr (Block (Pos_dcol (b1 b) (- 1)) (Pos_dcol (b1 b) (- 1))) \<and>
        tilt RIGHT b = Inr (Block (Pos_dcol (b2 b) 1) (Pos_dcol (b2 b) 1)) \<and>
        tilt UP b = Inr (Block (Pos_drow (b1 b) (- 1)) (Pos_drow (b2 b) (- 1))) \<and>
        tilt DOWN b = Inr (Block (Pos_drow (b1 b) 1) (Pos_drow (b2 b) 1))) \<and>
     (\<not> is_standing b \<and> col (b1 b) = col (b2 b) \<longrightarrow>
        tilt UP b = Inr (Block (Pos_drow (b1 b) (- 1)) (Pos_drow (b1 b) (- 1))) \<and>
        tilt DOWN b = Inr (Block (Pos_drow (b2 b) 1) (Pos_drow (b2 b) 1)) \<and>
        tilt LEFT b = Inr (Block (Pos_dcol (b1 b) (- 1)) (Pos_dcol (b2 b) (- 1))) \<and>
        tilt RIGHT b = Inr (Block (Pos_dcol (b1 b) 1) (Pos_dcol (b2 b) 1)))"
  by (erule well_formed_shapes) (simp_all add: geometry_defs)

theorem tilt_case_split_witness:
  "well_formed (Block (Pos 0 0) (Pos 0 0)) \<and>
   tilt RIGHT (Block (Pos 0 0) (Pos 0 0)) = Inr (Block (Pos 0 1) (Pos 0 2)) \<and>
   tilt UP (Block (Pos 0 0) (Pos 0 0)) = Inr (Block (Pos (- 2) 0) (Pos (- 1) 0)) \<and>
   well_formed (Block (Pos 0 1) (Pos 0 2)) \<and>
   tilt LEFT (Block (Pos 0 1) (Pos 0 2)) = Inr (Block (Pos 0 0) (Pos 0 0)) \<and>
   tilt RIGHT (Block (Pos 0 1) (Pos 0 2)) = Inr (Block (Pos 0 3) (Pos 0 3)) \<and>
   tilt DOWN (Block (Pos 0 1) (Pos 0 2)) = Inr (Block (Pos 1 1) (Pos 1 2)) \<and>
   well_formed (Block (Pos 1 0) (Pos 2 0)) \<and>
   tilt UP (Block (Pos 1 0) (Pos 2 0)) = Inr (Block (Pos 0 0) (Pos 0 0)) \<and>
   tilt DOWN (Block (Pos 1 0) (Pos 2 0)) = Inr (Block (Pos 3 0) (Pos 3 0)) \<and>
   tilt RIGHT (Block (Pos 1 0) (Pos 2 0)) = Inr (Block (Pos 1 1) (Pos 2 1))"
proof -
  have s: "well_formed (Block (Pos 0 0) (Pos 0 0))"
    and h: "well_formed (Block (Pos 0 1) (Pos 0 2))"
    and v: "well_formed (Block (Pos 1 0) (Pos 2 0))"
    by (simp_all add: well_formed_def adjacent_def lex_le_def)
  show ?thesis
    using s h v tilt_case_split [OF s] tilt_case_split [OF h] tilt_case_split [OF v]
    by (simp add: is_standing_def Pos_dcol_def Pos_drow_def)
qed

text \<open>C7: each of the four tilts of a well-formed configuration returns (the
  constructor assertion does not fire) a well-formed configuration, whose cells are
  again in canonical order.\<close>

theorem tilt_preserves_well_formed:
  "well_formed b \<Longrightarrow>
     (\<exists>b'. tilt m b = Inr b' \<and> well_formed b' \<and> lex_le (b1 b') (b2 b'))"
  by (erule well_formed_shapes; cases m)
    (simp_all add: geometry_defs well_formed_def adjacent_def lex_le_def)

theorem tilt_preserves_well_formed_witness:
  "well_formed (Block (Pos 0 0) (Pos 0 0)) \<and>
   (\<exists>b'. tilt LEFT (Block (Pos 0 0) (Pos 0 0)) = Inr b' \<and> well_formed b' \<and> lex_le (b1 b') (b2 b'))"
proof -
  have wf: "well_formed (Block (Pos 0 0) (Pos 0 0))"
    by (simp add: well_formed_def lex_le_def)
  show ?thesis
    using wf tilt_preserves_well_formed [OF wf, of LEFT] by simp
qed

text \<open>C4, as stated, fails: the constructor accepts the cells (0,0) and (5,5), which
  are neither identical nor adjacent.\<close>

theorem constructor_accepts_non_adjacent:
  "Pos 0 0 \<noteq> Pos 5 5 \<and> \<not> adjacent (Pos 0 0) (Pos 5 5) \<and>
   new_Block (Pos 0 0) (Pos 5 5) = Inr (Block (Pos 0 0) (Pos 5 5))"
  by (simp add: adjacent_def new_Block_def post_init_def)

text \<open>C4, amended: the constructor rejects a pair exactly when the first cell's row or
  column exceeds the second's; so every pair out of canonical lexicographic order is
  rejected, and a pair that passes the row and column test is accepted, adjacent or
  not.\<close>

theorem constructor_check:
  "(new_Block p q = Inl AssertionError) = (row q < row p \<or> col q < col p) \<and>
   (\<not> lex_le p q \<longrightarrow> new_Block p q = Inl AssertionError) \<and>
   (row p \<le> row q \<and> col p \<le> col q \<longrightarrow> new_Block p q = Inr (Block p q))"
  by (auto simp: new_Block_def post_init_def lex_le_def)

theorem constructor_check_witness:
  "\<not> lex_le (Pos 1 0) (Pos 0 0) \<and> new_Block (Pos 1 0) (Pos 0 0) = Inl AssertionError \<and>
   row (Pos 0 0) \<le> row (Pos 0 1) \<and> col (Pos 0 0) \<le> col (Pos 0 1) \<and>
   new_Block (Pos 0 0) (Pos 0 1) = Inr (Block (Pos 0 0) (Pos 0 1))"
proof -
  have h: "\<not> lex_le (Pos 1 0) (Pos 0 0)" by (simp add: lex_le_def)
  have k: "row (Pos 0 0) \<le> row (Pos 0 1) \<and> col (Pos 0 0) \<le> col (Pos 0 1)" by simp
  show ?thesis
    using h k constructor_check [of "Pos 1 0" "Pos 0 0"] constructor_check [of "Pos 0 0" "Pos 0 1"]
    by blast
qed

section \<open>Paths and the loop body\<close>

lemma tilt_well_formed:
  "well_formed b \<Longrightarrow> \<exists>b'. tilt m b = Inr b' \<and> well_formed b'"
  by (erule well_formed_shapes; cases m)
    (simp_all add: geometry_defs well_formed_def adjacent_def lex_le_def)

lemma legal_run_append:
  "legal_run t b (xs @ ys) =
     (case legal_run t b xs of None \<Rightarrow> None | Some b' \<Rightarrow> legal_run t b' ys)"
  by (induction xs arbitrary: b) (auto split: sum.splits)

lemma legal_run_snoc:
  "legal_run t b (xs @ [m]) = Some c \<longleftrightarrow>
     (\<exists>b'. legal_run t b xs = Some b' \<and> tilt m b' = Inr c \<and> on_terrain t c)"
  by (auto simp: legal_run_append split: option.splits sum.splits if_splits)

lemma legal_run_well_formed:
  "well_formed b \<Longrightarrow> legal_run t b ms = Some c \<Longrightarrow> well_formed c"
proof (induction ms arbitrary: b)
  case Nil
  then show ?case by simp
next
  case (Cons m ms)
  from tilt_well_formed [OF Cons.prems(1), of m]
  obtain b' where "tilt m b = Inr b'" "well_formed b'" by blast
  with Cons show ?case by (auto split: if_splits)
qed

lemma visited_snoc:
  "legal_run t b xs = Some b' \<Longrightarrow> tilt m b' = Inr c \<Longrightarrow> visited b (xs @ [m]) = visited b xs @ [c]"
  by (induction xs arbitrary: b) (auto split: sum.splits if_splits)

lemma visited_length:
  "legal_run t b xs = Some b' \<Longrightarrow> length (visited b xs) = Suc (length xs)"
  by (induction xs arbitrary: b) (auto split: sum.splits if_splits)

lemma visited_not_Nil: "visited b xs \<noteq> []"
  by (cases xs) auto

lemma visited_last:
  "legal_run t b xs = Some b' \<Longrightarrow> last (visited b xs) = b'"
  by (induction xs arbitrary: b) (auto simp: visited_not_Nil split: sum.splits if_splits)

lemma visited_reachable:
  "legal_run t b xs = Some b' \<Longrightarrow> set (visited b xs) \<subseteq> reachable t b"
proof (induction xs arbitrary: b' rule: rev_induct)
  case Nil
  have "legal_run t b [] = Some b" by simp
  then have "b \<in> reachable t b" unfolding reachable_def by blast
  then show ?case by simp
next
  case (snoc m xs)
  from snoc.prems obtain c where c: "legal_run t b xs = Some c" "tilt m c = Inr b'"
    by (auto simp: legal_run_snoc)
  have "b' \<in> reachable t b" using snoc.prems unfolding reachable_def by blast
  with snoc.IH [OF c(1)] visited_snoc [OF c] show ?case by simp
qed

lemma for_neighbors_eq:
  "for_neighbors s h ns = s\<lparr>fifo := fifo s @ new_records (terrain s) (explored s) h ns\<rparr>"
  by (induction s h ns rule: for_neighbors.induct) (simp_all add: new_records_def is_legal_def on_terrain_def)

lemma neighbors_well_formed:
  assumes "well_formed b"
  obtains ns where "neighbors b = Inr ns" "length ns = 4"
    "\<And>c m. (c, m) \<in> set ns \<longleftrightarrow> tilt m b = Inr c"
proof -
  obtain l where l: "tilt LEFT b = Inr l" using tilt_well_formed [OF assms] by blast
  obtain r where r: "tilt RIGHT b = Inr r" using tilt_well_formed [OF assms] by blast
  obtain u where u: "tilt UP b = Inr u" using tilt_well_formed [OF assms] by blast
  obtain d where d: "tilt DOWN b = Inr d" using tilt_well_formed [OF assms] by blast
  let ?ns = "[(l, LEFT), (r, RIGHT), (u, UP), (d, DOWN)]"
  have 1: "neighbors b = Inr ?ns"
    using l r u d by (simp add: neighbors_def tilt_def)
  have 2: "(c, m) \<in> set ?ns \<longleftrightarrow> tilt m b = Inr c" for c m
    using l r u d by (cases m) auto
  show thesis by (rule that [OF 1 _ 2]) simp
qed

lemma done_block_iff: "done_block s b \<longleftrightarrow> b = Block (goal s) (goal s)"
  by (cases b) (auto simp: done_block_def is_standing_def)

lemma solve_loop_Nil: "fifo s = [] \<Longrightarrow> solve_loop s = Some (Inr [], s)"
  by (subst solve_loop.simps) simp

lemma solve_loop_done:
  "fifo s = (Block (goal s) (goal s), h) # rest \<Longrightarrow> solve_loop s = Some (Inr h, s\<lparr>fifo := rest\<rparr>)"
  by (subst solve_loop.simps) (simp add: done_block_iff)

lemma solve_loop_step:
  "fifo s = (p, h) # rest \<Longrightarrow> p \<noteq> Block (goal s) (goal s) \<Longrightarrow> neighbors p = Inr ns \<Longrightarrow>
   solve_loop s =
     solve_loop (s\<lparr>explored := insert p (explored s),
                  fifo := rest @ new_records (terrain s) (insert p (explored s)) h ns\<rparr>)"
  by (subst solve_loop.simps) (simp add: done_block_iff for_neighbors_eq)

section \<open>Invariants of the search loop\<close>

lemma expansion_new_records:
  assumes "length ns = 4" and "\<And>c m. (c, m) \<in> set ns \<longleftrightarrow> tilt m p = Inr c"
  shows "expansion t E p h (new_records t E h ns)"
proof -
  have "length (new_records t E h ns) \<le> length ns"
    by (simp add: new_records_def)
  moreover have "(c, h') \<in> set (new_records t E h ns) \<longleftrightarrow>
      (\<exists>m. h' = h @ [m] \<and> tilt m p = Inr c \<and> on_terrain t c \<and> c \<notin> E)" for c h'
    using assms(2) by (auto simp: new_records_def)
  ultimately show ?thesis using assms(1) by (simp add: expansion_def)
qed

lemma expansionD:
  "expansion t E p h new \<Longrightarrow> (c, h') \<in> set new \<Longrightarrow>
     \<exists>m. h' = h @ [m] \<and> tilt m p = Inr c \<and> on_terrain t c \<and> c \<notin> E"
  by (simp add: expansion_def)

lemma expansionI:
  "expansion t E p h new \<Longrightarrow> tilt m p = Inr c \<Longrightarrow> on_terrain t c \<Longrightarrow> c \<notin> E \<Longrightarrow>
     (c, h @ [m]) \<in> set new"
  by (auto simp: expansion_def)

lemma expansion_level:
  "expansion t E p h new \<Longrightarrow> x \<in> set new \<Longrightarrow> level x = Suc (length h)"
  by (cases x) (auto simp: level_def dest: expansionD)

subsection \<open>Every queued history is a legal path to its configuration\<close>

lemma inv_paths_step:
  assumes "inv_paths t b0 ((p, h) # rest)" and "expansion t E p h new"
  shows "inv_paths t b0 (rest @ new)"
proof -
  have p: "legal_run t b0 h = Some p" using assms(1) by (simp add: inv_paths_def)
  have "legal_run t b0 h' = Some c" if "(c, h') \<in> set new" for c h'
    using expansionD [OF assms(2) that] p by (auto simp: legal_run_snoc)
  with assms(1) show ?thesis by (auto simp: inv_paths_def)
qed

subsection \<open>A queued path never visits a configuration twice\<close>

lemma inv_distinct_step:
  assumes "inv_paths t b0 ((p, h) # rest)" and "inv_distinct b0 E ((p, h) # rest)"
    and "expansion t (insert p E) p h new"
  shows "inv_distinct b0 (insert p E) (rest @ new)"
proof -
  have p: "legal_run t b0 h = Some p" using assms(1) by (simp add: inv_paths_def)
  have d: "distinct (visited b0 h)" and e: "set (butlast (visited b0 h)) \<subseteq> E"
    using assms(2) by (simp_all add: inv_distinct_def)
  have "visited b0 h = butlast (visited b0 h) @ [p]"
    using visited_last [OF p] visited_not_Nil [of b0 h] by (metis append_butlast_last_id)
  then have "set (visited b0 h) = insert p (set (butlast (visited b0 h)))"
    by (metis Un_insert_right append_Nil2 list.simps(15) set_append)
  with e have v: "set (visited b0 h) \<subseteq> insert p E" by auto
  have new: "distinct (visited b0 h') \<and> set (butlast (visited b0 h')) \<subseteq> insert p E"
    if "(c, h') \<in> set new" for c h'
  proof -
    from expansionD [OF assms(3) that]
    obtain m where m: "h' = h @ [m]" "tilt m p = Inr c" "c \<notin> insert p E" by blast
    have "visited b0 h' = visited b0 h @ [c]" using visited_snoc [OF p m(2)] m(1) by simp
    with d v m(3) show ?thesis by auto
  qed
  have old: "distinct (visited b0 h') \<and> set (butlast (visited b0 h')) \<subseteq> insert p E"
    if "(c, h') \<in> set rest" for c h'
    using assms(2) that by (auto simp: inv_distinct_def)
  show ?thesis unfolding inv_distinct_def
  proof (intro ballI)
    fix x assume x: "x \<in> set (rest @ new)"
    obtain c h' where "x = (c, h')" by (cases x)
    with x new [of c h'] old [of c h']
    show "case x of (c, h) \<Rightarrow> distinct (visited b0 h) \<and> set (butlast (visited b0 h)) \<subseteq> insert p E"
      by auto
  qed
qed

lemma inv_distinct_bound:
  assumes "finite (reachable t b0)" and "legal_run t b0 h = Some p"
    and "distinct (visited b0 h)"
  shows "length h < card (reachable t b0)"
proof -
  have "Suc (length h) = card (set (visited b0 h))"
    using distinct_card [OF assms(3)] visited_length [OF assms(2)] by simp
  also have "\<dots> \<le> card (reachable t b0)"
    by (rule card_mono [OF assms(1) visited_reachable [OF assms(2)]])
  finally show ?thesis by simp
qed

subsection \<open>Legal neighbours of explored configurations are explored or queued\<close>

lemma inv_closed_step:
  assumes "inv_closed t b0 E ((p, h) # rest)" and "expansion t (insert p E) p h new"
  shows "inv_closed t b0 (insert p E) (rest @ new)"
proof -
  have 1: "b0 \<in> insert p E \<or> b0 \<in> fst ` set (rest @ new)"
    using assms(1) by (auto simp: inv_closed_def)
  have 2: "c \<in> insert p E \<or> c \<in> fst ` set (rest @ new)"
    if "q \<in> insert p E" "tilt m q = Inr c" "on_terrain t c" for q m c
  proof (cases "q = p")
    case True
    show ?thesis
    proof (cases "c \<in> insert p E")
      case False
      from expansionI [OF assms(2) _ that(3) False] that(2) True
      have "(c, h @ [m]) \<in> set new" by simp
      then show ?thesis by force
    qed simp
  next
    case False
    with that have "c \<in> E \<or> c \<in> fst ` set ((p, h) # rest)"
      using assms(1) unfolding inv_closed_def by blast
    then show ?thesis by auto
  qed
  show ?thesis unfolding inv_closed_def using 1 2 by blast
qed

lemma inv_closed_drained:
  assumes "inv_closed t b0 E []" and "legal_run t b0 ms = Some c"
  shows "c \<in> E"
  using assms(2)
proof (induction ms arbitrary: c rule: rev_induct)
  case Nil
  then show ?case using assms(1) by (simp add: inv_closed_def)
next
  case (snoc m ms)
  from snoc.prems obtain q where q: "legal_run t b0 ms = Some q" "tilt m q = Inr c" "on_terrain t c"
    by (auto simp: legal_run_snoc)
  from snoc.IH [OF q(1)] q(2,3) assms(1) show ?case
    unfolding inv_closed_def by fastforce
qed

subsection \<open>The queue holds at most two consecutive levels, in order\<close>

lemma sorted_hd_le:
  "sorted (map f xs) \<Longrightarrow> x \<in> set xs \<Longrightarrow> f (hd xs) \<le> f x"
  by (cases xs) auto

lemma sorted_map_const:
  "(\<And>x. x \<in> set xs \<Longrightarrow> f x = (k::nat)) \<Longrightarrow> sorted (map f xs)"
  by (induction xs) auto

lemma inv_levels_order_step:
  assumes srt: "sorted (map level ((p, h) # rest))"
    and top: "\<forall>x \<in> set ((p, h) # rest). level x \<le> Suc (length h)"
    and new: "\<forall>x \<in> set new. level x = Suc (length h)"
  shows "sorted (map level (rest @ new))"
    and "\<forall>x \<in> set (rest @ new). level x \<le> Suc (length h)"
    and "rest @ new \<noteq> [] \<Longrightarrow> length h \<le> level (hd (rest @ new))"
proof -
  have r: "length h \<le> level x" "level x \<le> Suc (length h)" if "x \<in> set rest" for x
    using srt top that by (auto simp: level_def)
  show 1: "sorted (map level (rest @ new))"
    using srt sorted_map_const [of new level "Suc (length h)"] r(2) new
    by (auto simp: sorted_append)
  show "\<forall>x \<in> set (rest @ new). level x \<le> Suc (length h)"
    using r(2) new by auto
  show "length h \<le> level (hd (rest @ new))" if "rest @ new \<noteq> []"
  proof -
    from that have "hd (rest @ new) \<in> set (rest @ new)" by (rule hd_in_set)
    with r(1) new show ?thesis by fastforce
  qed
qed

lemma inv_levels_step:
  assumes lev: "inv_levels t b0 E ((p, h) # rest)"
    and cl: "inv_closed t b0 (insert p E) (rest @ new)"
    and ex: "expansion t (insert p E) p h new"
  shows "inv_levels t b0 (insert p E) (rest @ new)"
proof -
  let ?Q = "rest @ new" and ?k = "length h" and ?E = "insert p E"
  have srt: "sorted (map level ((p, h) # rest))"
    and top: "\<forall>x \<in> set ((p, h) # rest). level x \<le> Suc ?k"
    and below: "\<And>h' c. legal_run t b0 h' = Some c \<Longrightarrow> length h' < ?k \<Longrightarrow> c \<in> E"
    and at: "\<And>h' c. legal_run t b0 h' = Some c \<Longrightarrow> length h' = ?k \<Longrightarrow>
               c \<in> E \<or> (\<exists>h''. (c, h'') \<in> set ((p, h) # rest) \<and> length h'' = ?k)"
    using lev unfolding inv_levels_def by (simp_all add: level_def)
  have new: "\<forall>x \<in> set new. level x = Suc ?k"
    using expansion_level [OF ex] by blast
  note ord = inv_levels_order_step [OF srt top new]
  have hd_min: "level (hd ?Q) \<le> level x" if "x \<in> set ?Q" for x
    using sorted_hd_le [OF ord(1) that] .
  have top': "\<forall>x \<in> set ?Q. level x \<le> Suc (level (hd ?Q))"
  proof
    fix x assume x: "x \<in> set ?Q"
    then have "?Q \<noteq> []" by auto
    from ord(3) [OF this] ord(2) x show "level x \<le> Suc (level (hd ?Q))" by fastforce
  qed
  have rest: "?Q \<noteq> [] \<longrightarrow>
        (\<forall>h' c. legal_run t b0 h' = Some c \<and> length h' < level (hd ?Q) \<longrightarrow> c \<in> ?E) \<and>
        (\<forall>h' c. legal_run t b0 h' = Some c \<and> length h' = level (hd ?Q) \<longrightarrow>
            c \<in> ?E \<or> (\<exists>h''. (c, h'') \<in> set ?Q \<and> length h'' = length h'))"
  proof
    assume ne: "?Q \<noteq> []"
    have lo: "?k \<le> level (hd ?Q)" by (rule ord(3) [OF ne])
    have hi: "level (hd ?Q) \<le> Suc ?k" using ord(2) hd_in_set [OF ne] by blast
    have at': "c \<in> ?E \<or> (\<exists>h''. (c, h'') \<in> set rest \<and> length h'' = ?k)"
      if "legal_run t b0 h' = Some c" "length h' = ?k" for h' c
      using at [OF that] by auto
    show "(\<forall>h' c. legal_run t b0 h' = Some c \<and> length h' < level (hd ?Q) \<longrightarrow> c \<in> ?E) \<and>
        (\<forall>h' c. legal_run t b0 h' = Some c \<and> length h' = level (hd ?Q) \<longrightarrow>
            c \<in> ?E \<or> (\<exists>h''. (c, h'') \<in> set ?Q \<and> length h'' = length h'))"
    proof (cases "level (hd ?Q) = ?k")
      case True
      have "c \<in> ?E" if "legal_run t b0 h' = Some c" "length h' < level (hd ?Q)" for h' c
        using below [OF that(1)] that(2) True by simp
      moreover have "c \<in> ?E \<or> (\<exists>h''. (c, h'') \<in> set ?Q \<and> length h'' = length h')"
        if "legal_run t b0 h' = Some c" "length h' = level (hd ?Q)" for h' c
        using at' [OF that(1)] that(2) True by auto
      ultimately show ?thesis by blast
    next
      case False
      with lo hi have k': "level (hd ?Q) = Suc ?k" by simp
      have all: "level x = Suc ?k" if "x \<in> set ?Q" for x
        using hd_min [OF that] ord(2) that k' by fastforce
      have below': "c \<in> ?E" if run: "legal_run t b0 h' = Some c" and len: "length h' < Suc ?k" for h' c
      proof (cases "length h' < ?k")
        case True
        then show ?thesis using below [OF run] by simp
      next
        case False
        with len have "length h' = ?k" by simp
        from at' [OF run this] show ?thesis
        proof
          assume "\<exists>h''. (c, h'') \<in> set rest \<and> length h'' = ?k"
          then obtain h'' where "(c, h'') \<in> set rest" "length h'' = ?k" by blast
          with all [of "(c, h'')"] show ?thesis by (simp add: level_def)
        qed
      qed
      have at'': "c \<in> ?E \<or> (\<exists>h''. (c, h'') \<in> set ?Q \<and> length h'' = length h')"
        if run: "legal_run t b0 h' = Some c" and len: "length h' = Suc ?k" for h' c
      proof -
        from len obtain h2 m where h': "h' = h2 @ [m]"
          by (cases h' rule: rev_cases) auto
        with run obtain q where q: "legal_run t b0 h2 = Some q" "tilt m q = Inr c" "on_terrain t c"
          by (auto simp: legal_run_snoc)
        from h' len have "length h2 < Suc ?k" by simp
        from below' [OF q(1) this] have "q \<in> ?E" .
        with cl q(2,3) have "c \<in> ?E \<or> c \<in> fst ` set ?Q"
          unfolding inv_closed_def by blast
        then show ?thesis
        proof
          assume "c \<in> fst ` set ?Q"
          then obtain h'' where h'': "(c, h'') \<in> set ?Q" by force
          from all [OF this] len have "length h'' = length h'" by (simp add: level_def)
          with h'' show ?thesis by blast
        qed simp
      qed
      show ?thesis unfolding k' using below' at'' by blast
    qed
  qed
  show ?thesis unfolding inv_levels_def using ord(1) top' rest by blast
qed

lemma inv_levels_first_goal:
  assumes "inv_levels t b0 E ((c, r) # rest)" and "c \<notin> E"
    and "legal_run t b0 h = Some c"
  shows "length r \<le> length h"
proof (rule ccontr)
  assume "\<not> length r \<le> length h"
  then have "length h < level (hd ((c, r) # rest))" by (simp add: level_def)
  with assms(1,3) have "c \<in> E" unfolding inv_levels_def by blast
  with assms(2) show False by simp
qed

subsection \<open>The search invariant\<close>

lemma search_inv_init:
  "search_inv t (Block s s) g {} [(Block s s, [])]"
  by (auto simp: search_inv_def inv_paths_def inv_distinct_def inv_closed_def inv_levels_def
      level_def)

lemma search_inv_step:
  assumes inv: "search_inv t b0 g E ((p, h) # rest)" and p: "p \<noteq> Block g g"
    and ex: "expansion t (insert p E) p h new"
  shows "search_inv t b0 g (insert p E) (rest @ new)"
proof -
  from inv have 1: "inv_paths t b0 ((p, h) # rest)" and 2: "inv_distinct b0 E ((p, h) # rest)"
    and 3: "inv_closed t b0 E ((p, h) # rest)" and 4: "inv_levels t b0 E ((p, h) # rest)"
    and 5: "Block g g \<notin> E"
    by (simp_all add: search_inv_def)
  note cl = inv_closed_step [OF 3 ex]
  show ?thesis unfolding search_inv_def
    using inv_paths_step [OF 1 ex] inv_distinct_step [OF 1 2 ex] cl
      inv_levels_step [OF 4 cl ex] 5 p by auto
qed

subsection \<open>Termination measure\<close>

lemma weight_same_level:
  "(\<And>x. x \<in> set new \<Longrightarrow> level x = k) \<Longrightarrow> weight N new = length new * 5 ^ (N - k)"
  by (induction new) (auto simp: weight_def)

lemma weight_step:
  assumes "length h < N" and "length new \<le> 4" and "\<And>x. x \<in> set new \<Longrightarrow> level x = Suc (length h)"
  shows "weight N (rest @ new) < weight N ((p, h) # rest)"
proof -
  let ?X = "(5::nat) ^ (N - Suc (length h))"
  from assms(1) have "N - length h = Suc (N - Suc (length h))" by simp
  then have 1: "(5::nat) ^ (N - length h) = 5 * ?X" by simp
  have "weight N new = length new * ?X" by (rule weight_same_level [OF assms(3)])
  also have "\<dots> \<le> 4 * ?X" using assms(2) by simp
  also have "\<dots> < 5 * ?X" by simp
  finally have "weight N new < 5 ^ (N - length h)" using 1 by simp
  then show ?thesis by (simp add: weight_def level_def)
qed

subsection \<open>The loop returns when the search graph is finite\<close>

lemma solve_loop_returns:
  assumes fin: "finite (reachable t b0)" and wf: "well_formed b0"
  shows "search_inv t b0 g (explored s) (fifo s) \<Longrightarrow> terrain s = t \<Longrightarrow> goal s = g \<Longrightarrow>
    \<exists>r s'. solve_loop s = Some (Inr r, s') \<and> terrain s' = t \<and> goal s' = g \<and> start s' = start s \<and>
      ((r = [] \<and> fifo s' = [] \<and> search_inv t b0 g (explored s') []) \<or>
       search_inv t b0 g (explored s') ((Block g g, r) # fifo s'))"
proof (induction "weight (card (reachable t b0)) (fifo s)" arbitrary: s rule: less_induct)
  case less
  note inv = less.prems(1) and t = less.prems(2) and g = less.prems(3)
  show ?case
  proof (cases "fifo s")
    case Nil
    from solve_loop_Nil [OF Nil] inv t g Nil show ?thesis by auto
  next
    case (Cons x rest)
    obtain p h where x: "x = (p, h)" by (cases x)
    with Cons have Q: "fifo s = (p, h) # rest" by simp
    show ?thesis
    proof (cases "p = Block g g")
      case True
      with Q g have "solve_loop s = Some (Inr h, s\<lparr>fifo := rest\<rparr>)"
        by (simp add: solve_loop_done)
      moreover have "search_inv t b0 g (explored (s\<lparr>fifo := rest\<rparr>))
          ((Block g g, h) # fifo (s\<lparr>fifo := rest\<rparr>))"
        using inv Q True by simp
      ultimately show ?thesis using t g by auto
    next
      case False
      from inv Q have run: "legal_run t b0 h = Some p"
        and dist: "distinct (visited b0 h)"
        by (simp_all add: search_inv_def inv_paths_def inv_distinct_def)
      have wfp: "well_formed p" by (rule legal_run_well_formed [OF wf run])
      from neighbors_well_formed [OF wfp]
      obtain ns where ns: "neighbors p = Inr ns" "length ns = 4"
        "\<And>c m. (c, m) \<in> set ns \<longleftrightarrow> tilt m p = Inr c"
        by blast
      let ?E = "insert p (explored s)"
      let ?new = "new_records t ?E h ns"
      let ?s = "s\<lparr>explored := ?E, fifo := rest @ ?new\<rparr>"
      have ex: "expansion t ?E p h ?new"
        by (rule expansion_new_records [OF ns(2,3)])
      from inv Q have "search_inv t b0 g (explored s) ((p, h) # rest)" by simp
      from search_inv_step [OF this False ex]
      have inv': "search_inv t b0 g (explored ?s) (fifo ?s)" by simp
      have bound: "length h < card (reachable t b0)"
        by (rule inv_distinct_bound [OF fin run dist])
      have "weight (card (reachable t b0)) (rest @ ?new)
              < weight (card (reachable t b0)) ((p, h) # rest)"
        using bound ex expansion_level [OF ex]
        by (intro weight_step) (simp_all add: expansion_def)
      then have dec: "weight (card (reachable t b0)) (fifo ?s)
              < weight (card (reachable t b0)) (fifo s)"
        using Q by simp
      have step: "solve_loop s = solve_loop ?s"
        using solve_loop_step [OF Q _ ns(1)] False g t by simp
      from less.hyps [OF dec inv'] t g step show ?thesis by simp
    qed
  qed
qed

lemma search_inv_drained:
  "search_inv t b0 g E [] \<Longrightarrow> legal_run t b0 ms \<noteq> Some (Block g g)"
  using inv_closed_drained [of t b0 E ms "Block g g"]
  by (auto simp: search_inv_def)

lemma search_inv_found:
  assumes "search_inv t b0 g E ((Block g g, r) # rest)"
  shows "legal_run t b0 r = Some (Block g g)"
    and "legal_run t b0 h = Some (Block g g) \<Longrightarrow> length r \<le> length h"
proof -
  from assms show "legal_run t b0 r = Some (Block g g)"
    by (simp add: search_inv_def inv_paths_def)
  from assms have "inv_levels t b0 E ((Block g g, r) # rest)" "Block g g \<notin> E"
    by (simp_all add: search_inv_def)
  then show "legal_run t b0 h = Some (Block g g) \<Longrightarrow> length r \<le> length h"
    by (rule inv_levels_first_goal)
qed

lemma well_formed_standing: "well_formed (Block s s)"
  by (simp add: well_formed_def lex_le_def)

lemma solve_new:
  "solve (Solver_init s g t) = solve_loop ((Solver_init s g t)\<lparr>fifo := [(Block s s, [])]\<rparr>)"
  by (simp add: solve_def new_Block_def post_init_def Solver_init_def)

lemma solve_returns:
  assumes fin: "finite (reachable t (Block s s))"
  shows "\<exists>r s'. solve (Solver_init s g t) = Some (Inr r, s') \<and>
      terrain s' = t \<and> goal s' = g \<and> start s' = s \<and>
      ((r = [] \<and> fifo s' = [] \<and> search_inv t (Block s s) g (explored s') []) \<or>
       search_inv t (Block s s) g (explored s') ((Block g g, r) # fifo s'))"
proof -
  let ?s = "(Solver_init s g t)\<lparr>fifo := [(Block s s, [])]\<rparr>"
  have "search_inv t (Block s s) g (explored ?s) (fifo ?s)"
    using search_inv_init [of t s g] by (simp add: Solver_init_def)
  from solve_loop_returns [OF fin well_formed_standing this]
  show ?thesis unfolding solve_new by (auto simp: Solver_init_def)
qed

subsection \<open>What a returning call guarantees, with no assumption on the terrain\<close>

lemma solve_loop_sound:
  assumes ret: "solve_loop s = Some y"
  shows "\<forall>b0 ms s'. well_formed b0 \<and> inv_paths (terrain s) b0 (fifo s) \<and> y = (Inr ms, s') \<longrightarrow>
     (\<exists>c. legal_run (terrain s) b0 ms = Some c)" (is "?P s y")
proof (rule solve_loop.raw_induct [where P = ?P, OF _ ret], goal_cases)
  case (1 f s y)
  note IH = 1(1) and body = 1(2)
  show ?case
  proof (intro allI impI, elim conjE)
    fix b0 ms s'
    assume wf: "well_formed b0" and inv: "inv_paths (terrain s) b0 (fifo s)"
      and y: "y = (Inr ms, s')"
    show "\<exists>c. legal_run (terrain s) b0 ms = Some c"
    proof (cases "fifo s")
      case Nil
      with body y have "ms = []" by simp
      then show ?thesis by simp
    next
      case (Cons x rest)
      obtain p h where x: "x = (p, h)" by (cases x)
      from inv Cons x have run: "legal_run (terrain s) b0 h = Some p"
        by (simp add: inv_paths_def)
      show ?thesis
      proof (cases "done_block s p")
        case True
        with body y Cons x have "ms = h" by simp
        with run show ?thesis by simp
      next
        case False
        have wfp: "well_formed p" by (rule legal_run_well_formed [OF wf run])
        from neighbors_well_formed [OF wfp]
        obtain ns where ns: "neighbors p = Inr ns" "length ns = 4"
          "\<And>c m. (c, m) \<in> set ns \<longleftrightarrow> tilt m p = Inr c"
          by blast
        let ?E = "insert p (explored s)"
        let ?new = "new_records (terrain s) ?E h ns"
        let ?s = "s\<lparr>explored := ?E, fifo := rest @ ?new\<rparr>"
        have call: "f ?s = Some y"
          using body Cons x False ns(1) by (simp add: for_neighbors_eq)
        have "inv_paths (terrain s) b0 ((p, h) # rest)" using inv Cons x by simp
        from inv_paths_step [OF this expansion_new_records [OF ns(2,3)]]
        have "inv_paths (terrain ?s) b0 (fifo ?s)" by simp
        with IH [OF call] wf y have "\<exists>c. legal_run (terrain ?s) b0 ms = Some c" by blast
        then show ?thesis by simp
      qed
    qed
  qed
qed


lemma legal_run_configurations:
  "legal_run t b ms = Some c \<Longrightarrow>
     \<exists>bs. configurations b ms = Inr bs \<and> length bs = length ms \<and> list_all (on_terrain t) bs"
proof (induction ms arbitrary: b)
  case Nil
  then show ?case by simp
next
  case (Cons m ms)
  then obtain b' where b': "tilt m b = Inr b'" "on_terrain t b'" "legal_run t b' ms = Some c"
    by (auto split: sum.splits if_splits)
  from Cons.IH [OF b'(3)] b'(1,2) show ?case by auto
qed

subsection \<open>The grid of the concrete scenario\<close>

lemma reachable_subset: "reachable t b \<subseteq> insert b {c. on_terrain t c}"
proof
  fix c assume "c \<in> reachable t b"
  then obtain ms where ms: "legal_run t b ms = Some c" by (auto simp: reachable_def)
  show "c \<in> insert b {c. on_terrain t c}"
  proof (cases ms rule: rev_cases)
    case Nil
    with ms show ?thesis by simp
  next
    case (snoc xs m)
    with ms show ?thesis by (auto simp: legal_run_snoc)
  qed
qed

lemma finite_grid_cells: "finite {p. grid_terrain p}"
proof -
  have "{p. grid_terrain p} \<subseteq> (\<lambda>(r, c). Pos r c) ` ({0..2} \<times> {0..3})"
  proof
    fix p assume "p \<in> {p. grid_terrain p}"
    then show "p \<in> (\<lambda>(r, c). Pos r c) ` ({0..2} \<times> {0..3})"
      by (cases p) (auto simp: grid_terrain_def)
  qed
  then show ?thesis by (rule finite_subset) simp
qed

lemma finite_reachable_grid: "finite (reachable grid_terrain b)"
proof -
  have "{c. on_terrain grid_terrain c}
      \<subseteq> (\<lambda>(p, q). Block p q) ` ({p. grid_terrain p} \<times> {p. grid_terrain p})"
  proof
    fix c assume "c \<in> {c. on_terrain grid_terrain c}"
    then show "c \<in> (\<lambda>(p, q). Block p q) ` ({p. grid_terrain p} \<times> {p. grid_terrain p})"
      by (cases c) (auto simp: on_terrain_def)
  qed
  then have "finite {c. on_terrain grid_terrain c}"
    by (rule finite_subset) (simp add: finite_grid_cells)
  then show ?thesis
    using finite_subset [OF reachable_subset [of grid_terrain b]] by simp
qed

lemma off_grid_unsolvable: "\<not> solvable grid_terrain (Pos 0 0) (Pos 5 5)"
proof
  assume "solvable grid_terrain (Pos 0 0) (Pos 5 5)"
  then have "Block (Pos 5 5) (Pos 5 5) \<in> reachable grid_terrain (Block (Pos 0 0) (Pos 0 0))"
    by (auto simp: solvable_def reachable_def)
  with reachable_subset [of grid_terrain "Block (Pos 0 0) (Pos 0 0)"]
  show False by (auto simp: on_terrain_def grid_terrain_def)
qed

lemma grid_solvable: "solvable grid_terrain (Pos 0 0) (Pos 0 3)"
proof -
  have "legal_run grid_terrain (Block (Pos 0 0) (Pos 0 0)) [RIGHT, RIGHT]
      = Some (Block (Pos 0 3) (Pos 0 3))"
    by (simp add: geometry_defs on_terrain_def grid_terrain_def)
  then show ?thesis unfolding solvable_def by blast
qed

section \<open>The search: properties\<close>

lemma solve_on_grid:
  "\<exists>st. solve (Solver_init (Pos 0 0) (Pos 0 3) grid_terrain) = Some (Inr [RIGHT, RIGHT], st)"
proof -
  have "map_option fst (solve (Solver_init (Pos 0 0) (Pos 0 3) grid_terrain))
      = Some (Inr [RIGHT, RIGHT])"
    by code_simp
  then show ?thesis by auto
qed










text \<open>C6: when the set of configurations reachable from the standing start through
  legal tilts is finite, solve on a new Solver returns (the loop performs finitely many
  dequeues), and what it returns is a move sequence, not an assertion failure.\<close>

theorem solve_terminates:
  "finite (reachable t (Block s s)) \<Longrightarrow> \<exists>r st. solve (Solver_init s g t) = Some (Inr r, st)"
  using solve_returns [of t s g] by blast

theorem solve_terminates_witness:
  "finite (reachable grid_terrain (Block (Pos 0 0) (Pos 0 0))) \<and>
   (\<exists>r st. solve (Solver_init (Pos 0 0) (Pos 0 3) grid_terrain) = Some (Inr r, st))"
  using finite_reachable_grid solve_terminates [OF finite_reachable_grid] by blast

text \<open>C8: with a finite reachable graph, if no sequence of legal tilts leads from
  standing at start to standing at goal, solve on a new Solver returns the empty
  sequence, and it does so by falling out of the loop: the queue it leaves is empty, and
  every reachable configuration has been expanded.\<close>

theorem solve_unreachable_empty:
  assumes "finite (reachable t (Block s s))" and "\<not> solvable t s g"
  shows "\<exists>st. solve (Solver_init s g t) = Some (Inr [], st) \<and> fifo st = [] \<and>
           reachable t (Block s s) \<subseteq> explored st"
proof -
  from solve_returns [OF assms(1), of g]
  obtain r s' where 1: "solve (Solver_init s g t) = Some (Inr r, s')"
    and c: "(r = [] \<and> fifo s' = [] \<and> search_inv t (Block s s) g (explored s') []) \<or>
       search_inv t (Block s s) g (explored s') ((Block g g, r) # fifo s')"
    by blast
  from c assms(2) search_inv_found(1) [of t "Block s s" g "explored s'" r "fifo s'"]
  have r: "r = []" and q: "fifo s' = []" and inv: "search_inv t (Block s s) g (explored s') []"
    by (auto simp: solvable_def)
  from inv have "inv_closed t (Block s s) (explored s') []" by (simp add: search_inv_def)
  from inv_closed_drained [OF this] have "reachable t (Block s s) \<subseteq> explored s'"
    by (auto simp: reachable_def)
  with 1 r q show ?thesis by blast
qed

theorem solve_unreachable_empty_witness:
  "finite (reachable grid_terrain (Block (Pos 0 0) (Pos 0 0))) \<and>
   \<not> solvable grid_terrain (Pos 0 0) (Pos 5 5) \<and>
   (\<exists>st. solve (Solver_init (Pos 0 0) (Pos 5 5) grid_terrain) = Some (Inr [], st) \<and>
      fifo st = [] \<and> reachable grid_terrain (Block (Pos 0 0) (Pos 0 0)) \<subseteq> explored st)"
  using finite_reachable_grid off_grid_unsolvable
    solve_unreachable_empty [OF finite_reachable_grid off_grid_unsolvable]
  by blast

text \<open>C1: for a solvable input with a finite reachable graph, solve on a new Solver
  returns a legal move sequence from standing at start to standing at goal whose length
  is the graph distance between the two.\<close>

theorem solve_shortest:
  assumes "finite (reachable t (Block s s))" and "solvable t s g"
  shows "\<exists>ms st. solve (Solver_init s g t) = Some (Inr ms, st) \<and>
           legal_run t (Block s s) ms = Some (Block g g) \<and>
           length ms = graph_distance t (Block s s) (Block g g)"
proof -
  from solve_returns [OF assms(1), of g]
  obtain r s' where 1: "solve (Solver_init s g t) = Some (Inr r, s')"
    and c: "(r = [] \<and> fifo s' = [] \<and> search_inv t (Block s s) g (explored s') []) \<or>
       search_inv t (Block s s) g (explored s') ((Block g g, r) # fifo s')"
    by blast
  from c assms(2) search_inv_drained [of t "Block s s" g "explored s'"]
  have inv: "search_inv t (Block s s) g (explored s') ((Block g g, r) # fifo s')"
    by (auto simp: solvable_def)
  note run = search_inv_found(1) [OF inv] and least = search_inv_found(2) [OF inv]
  have "graph_distance t (Block s s) (Block g g) = length r"
    unfolding graph_distance_def
  proof (rule Least_equality)
    show "\<exists>ms. length ms = length r \<and> legal_run t (Block s s) ms = Some (Block g g)"
      using run by blast
    show "length r \<le> n"
      if "\<exists>ms. length ms = n \<and> legal_run t (Block s s) ms = Some (Block g g)" for n
      using that least by blast
  qed
  with 1 run show ?thesis by auto
qed

theorem solve_shortest_witness:
  "finite (reachable grid_terrain (Block (Pos 0 0) (Pos 0 0))) \<and>
   solvable grid_terrain (Pos 0 0) (Pos 0 3) \<and>
   (\<exists>ms st. solve (Solver_init (Pos 0 0) (Pos 0 3) grid_terrain) = Some (Inr ms, st) \<and>
      legal_run grid_terrain (Block (Pos 0 0) (Pos 0 0)) ms = Some (Block (Pos 0 3) (Pos 0 3)) \<and>
      length ms = graph_distance grid_terrain (Block (Pos 0 0) (Pos 0 0)) (Block (Pos 0 3) (Pos 0 3)))"
  using finite_reachable_grid grid_solvable
    solve_shortest [OF finite_reachable_grid grid_solvable]
  by blast

text \<open>C3: whenever solve on a new Solver returns a move sequence, every tilt of the
  sequence applied in turn from standing at start returns, and the configuration after
  each move has both cells on the terrain.\<close>

theorem solve_moves_legal:
  assumes "solve (Solver_init s g t) = Some (Inr ms, st)"
  shows "\<exists>bs. configurations (Block s s) ms = Inr bs \<and> length bs = length ms \<and>
           list_all (on_terrain t) bs"
proof -
  let ?s = "(Solver_init s g t)\<lparr>fifo := [(Block s s, [])]\<rparr>"
  from assms have ret: "solve_loop ?s = Some (Inr ms, st)" by (simp add: solve_new)
  have "inv_paths (terrain ?s) (Block s s) (fifo ?s)" by (simp add: inv_paths_def)
  with solve_loop_sound [OF ret] well_formed_standing [of s]
  obtain c where "legal_run (terrain ?s) (Block s s) ms = Some c" by blast
  then have "legal_run t (Block s s) ms = Some c" by (simp add: Solver_init_def)
  then show ?thesis by (rule legal_run_configurations)
qed

theorem solve_moves_legal_witness:
  "\<exists>st bs. solve (Solver_init (Pos 0 0) (Pos 0 3) grid_terrain) = Some (Inr [RIGHT, RIGHT], st) \<and>
     configurations (Block (Pos 0 0) (Pos 0 0)) [RIGHT, RIGHT] = Inr bs \<and>
     length bs = length [RIGHT, RIGHT] \<and> list_all (on_terrain grid_terrain) bs"
proof -
  from solve_on_grid obtain st
    where st: "solve (Solver_init (Pos 0 0) (Pos 0 3) grid_terrain) = Some (Inr [RIGHT, RIGHT], st)"
    by blast
  from solve_moves_legal [OF st] st show ?thesis by blast
qed




text \<open>C9: on the grid of rows 0 to 2 and columns 0 to 3, from (0,0) to (0,3), solve
  returns RIGHT, RIGHT.\<close>

theorem solve_grid_scenario:
  "map_option fst (solve (Solver_init (Pos 0 0) (Pos 0 3) grid_terrain))
     = Some (Inr [RIGHT, RIGHT])"
  by code_simp

text \<open>C10: with start = goal = p, and any terrain at all, solve on a new Solver returns
  the empty sequence (and leaves the object as it was constructed).\<close>

theorem solve_start_is_goal:
  "solve (Solver_init p p t) = Some (Inr [], Solver_init p p t)"
  by (subst solve_def, subst solve_loop.simps)
    (simp add: new_Block_def post_init_def Solver_init_def done_block_def is_standing_def)

end
